theory Spec2Isabelle
  imports Main "HOL-Library.Sublist" "HOL-Library.Char_ord" "HOL-Library.List_Lexorder"
begin

section \<open>Python string primitives used by the two scripts\<close>

text \<open>
  Python \<^verbatim>\<open>str\<close> values are modelled as \<^typ>\<open>string\<close>, one \<^typ>\<open>char\<close> per code point
  below 256. Case conversion acts on the ASCII letters: every string that reaches
  \<^verbatim>\<open>snake_to_camel\<close> is a regex group over \<^verbatim>\<open>[a-zA-Z0-9_.-]\<close>, so no other letter
  is ever converted by the scripts.
\<close>

definition lower_letters :: string where
  "lower_letters = ''abcdefghijklmnopqrstuvwxyz''"

definition upper_letters :: string where
  "upper_letters = ''ABCDEFGHIJKLMNOPQRSTUVWXYZ''"

definition upper_char :: "char \<Rightarrow> char" where
  \<comment> \<open>\<^verbatim>\<open>c.upper()\<close> on one character\<close>
  "upper_char c = (case map_of (zip lower_letters upper_letters) c of Some u \<Rightarrow> u | None \<Rightarrow> c)"

definition lower_char :: "char \<Rightarrow> char" where
  \<comment> \<open>\<^verbatim>\<open>c.lower()\<close> on one character\<close>
  "lower_char c = (case map_of (zip upper_letters lower_letters) c of Some l \<Rightarrow> l | None \<Rightarrow> c)"

definition capitalize :: "string \<Rightarrow> string" where
  \<comment> \<open>\<^verbatim>\<open>str.capitalize()\<close>: first character upper-cased, all the others lower-cased\<close>
  "capitalize w = (case w of [] \<Rightarrow> [] | c # cs \<Rightarrow> upper_char c # map lower_char cs)"

fun split_str :: "char \<Rightarrow> string \<Rightarrow> string list" where
  \<comment> \<open>\<^verbatim>\<open>s.split(sep)\<close> for a one-character separator; never returns the empty list\<close>
  "split_str sep [] = [[]]"
| "split_str sep (c # cs) =
     (if c = sep then [] # split_str sep cs
      else (let r = split_str sep cs in (c # hd r) # tl r))"

fun join_str :: "string \<Rightarrow> string list \<Rightarrow> string" where
  \<comment> \<open>\<^verbatim>\<open>sep.join(parts)\<close>\<close>
  "join_str sep [] = []"
| "join_str sep [p] = p"
| "join_str sep (p # q # ps) = p @ sep @ join_str sep (q # ps)"

section \<open>The key transformation\<close>

definition title_part :: "string \<Rightarrow> string" where
  \<comment> \<open>\<^verbatim>\<open>part[0].upper() + part[1:] if part else part\<close>\<close>
  "title_part part = (if part \<noteq> [] then upper_char (hd part) # tl part else part)"

definition camel_part :: "string \<Rightarrow> string" where
  \<comment> \<open>the branch for the last part: \<^verbatim>\<open>sub_parts[0] + ''.join(word.capitalize() for word in sub_parts[1:])\<close>
      when the part holds an underscore\<close>
  "camel_part part =
     (if CHR ''_'' \<in> set part then
        (let sub_parts = split_str CHR ''_'' part
         in hd sub_parts @ concat (map capitalize (tl sub_parts)))
      else part)"

definition convert_part :: "nat \<Rightarrow> nat \<Rightarrow> string \<Rightarrow> string" where
  \<comment> \<open>the body of the loop of \<^verbatim>\<open>snake_to_camel\<close>, for the part at index \<open>i\<close> of \<open>n\<close> parts\<close>
  "convert_part n i part =
     (if int i = int n - 1 then camel_part part else title_part part)"

definition capitalize_first :: "string \<Rightarrow> string" where
  \<comment> \<open>"capitalize the first character" in the words of the specification: nothing else changes\<close>
  "capitalize_first w = (case w of [] \<Rightarrow> [] | c # cs \<Rightarrow> upper_char c # cs)"

definition transform_spec :: "string \<Rightarrow> string" where
  \<comment> \<open>the key transformation in the words of the specification\<close>
  "transform_spec original_key =
     (let segments = split_str CHR ''.'' original_key;
          l = last segments
      in join_str ''.''
           (map capitalize_first (butlast segments) @
            [if CHR ''_'' \<in> set l
               then (let subs = split_str CHR ''_'' l
                     in hd subs @ concat (map capitalize_first (tl subs)))
             else l]))"

definition snake_to_camel :: "string \<Rightarrow> string" where
  "snake_to_camel snake_str =
     (let parts = split_str CHR ''.'' snake_str;
          result_parts = map (\<lambda>(i, part). convert_part (length parts) i part) (enumerate 0 parts)
      in join_str ''.'' result_parts)"


section \<open>Whitespace, lines and sub-strings\<close>

abbreviation (input) DQ :: char where
  "DQ \<equiv> CHR 0x22"

abbreviation (input) BSL :: char where
  "BSL \<equiv> CHR 0x5C"

abbreviation (input) LF :: char where
  "LF \<equiv> CHR 0x0A"

abbreviation (input) CR :: char where
  "CR \<equiv> CHR 0x0D"

definition is_space :: "char \<Rightarrow> bool" where
  \<comment> \<open>\<^verbatim>\<open>str.isspace\<close> and the regex class \<^verbatim>\<open>\s\<close> on code points below 256\<close>
  "is_space c \<longleftrightarrow>
     c \<in> set [CHR 0x09, CHR 0x0A, CHR 0x0B, CHR 0x0C, CHR 0x0D, CHR 0x1C, CHR 0x1D,
              CHR 0x1E, CHR 0x1F, CHR 0x20, CHR 0x85, CHR 0xA0]"

definition strip :: "string \<Rightarrow> string" where
  \<comment> \<open>\<^verbatim>\<open>s.strip()\<close>\<close>
  "strip s = rev (dropWhile is_space (rev (dropWhile is_space s)))"

definition is_linebreak :: "char \<Rightarrow> bool" where
  \<comment> \<open>the line boundaries of \<^verbatim>\<open>str.splitlines\<close> below 256\<close>
  "is_linebreak c \<longleftrightarrow>
     c \<in> set [CHR 0x0A, CHR 0x0B, CHR 0x0C, CHR 0x0D, CHR 0x1C, CHR 0x1D, CHR 0x1E, CHR 0x85]"

function splitlines :: "string \<Rightarrow> string list" where
  \<comment> \<open>\<^verbatim>\<open>s.splitlines()\<close>: boundaries are dropped, CR LF is one boundary, and a final
      boundary opens no further line\<close>
  "splitlines s =
     (if s = [] then []
      else (case dropWhile (\<lambda>c. \<not> is_linebreak c) s of
              [] \<Rightarrow> [s]
            | c # r \<Rightarrow>
                takeWhile (\<lambda>c. \<not> is_linebreak c) s #
                splitlines (if c = CR \<and> r \<noteq> [] \<and> hd r = LF then tl r else r)))"
  by pat_completeness auto
termination
proof (relation "measure length", goal_cases)
  case 1
  show ?case by simp
next
  case (2 s c r)
  have "length (dropWhile (\<lambda>c. \<not> is_linebreak c) s) \<le> length s"
    by (rule length_dropWhile_le)
  with 2 have "length r < length s" by simp
  moreover have "length (tl r) \<le> length r" by simp
  ultimately show ?case by auto
qed

definition startswith :: "string \<Rightarrow> string \<Rightarrow> bool" where
  \<comment> \<open>\<^verbatim>\<open>s.startswith(p)\<close>\<close>
  "startswith s p \<longleftrightarrow> prefix p s"

definition contains :: "string \<Rightarrow> string \<Rightarrow> bool" where
  \<comment> \<open>\<^verbatim>\<open>term in content\<close> on strings: \<open>term\<close> occurs as a contiguous block\<close>
  "contains content term \<longleftrightarrow> sublist term content"

section \<open>The entry pattern of the cleaner\<close>

text \<open>
  The cleaner matches a stripped line against
  \<^verbatim>\<open>^\s*"([a-zA-Z0-9_.-]+)"\s*=\s*"((?:[^"\\]|\\.)*)"\s*;\s*$\<close>.
  Every repetition in this pattern is followed by a character that the repeated class
  cannot consume, so the backtracking matcher of \<^verbatim>\<open>re.match\<close> succeeds exactly when
  the left-to-right scan below does, and with the same groups only.
\<close>

definition is_key_char :: "char \<Rightarrow> bool" where
  \<comment> \<open>the class \<^verbatim>\<open>[a-zA-Z0-9_.-]\<close>\<close>
  "is_key_char c \<longleftrightarrow>
     c \<in> set lower_letters \<or> c \<in> set upper_letters \<or> c \<in> set ''0123456789'' \<or> c \<in> set ''_.-''"

definition skip_ws :: "string \<Rightarrow> string" where
  \<comment> \<open>\<^verbatim>\<open>\s*\<close>\<close>
  "skip_ws s = dropWhile is_space s"

definition expect :: "char \<Rightarrow> string \<Rightarrow> string option" where
  \<comment> \<open>one literal character of the pattern\<close>
  "expect c s = (case s of [] \<Rightarrow> None | x # xs \<Rightarrow> if x = c then Some xs else None)"

fun scan_value :: "string \<Rightarrow> string \<times> string" where
  \<comment> \<open>\<^verbatim>\<open>(?:[^"\\]|\\.)*\<close>: the text consumed and the rest; \<^verbatim>\<open>.\<close> takes no line feed\<close>
  "scan_value [] = ([], [])"
| "scan_value [c] = (if c = DQ \<or> c = BSL then ([], [c]) else ([c], []))"
| "scan_value (c # d # ds) =
     (if c = DQ then ([], c # d # ds)
      else if c = BSL then
        (if d = LF then ([], c # d # ds)
         else (let (v, r) = scan_value ds in (c # d # v, r)))
      else (let (v, r) = scan_value (d # ds) in (c # v, r)))"

definition match_entry :: "string \<Rightarrow> (string \<times> string) option" where
  \<comment> \<open>groups 1 and 2 of the entry pattern, or \<open>None\<close> when \<^verbatim>\<open>re.match\<close> gives no match\<close>
  "match_entry line =
     Option.bind (expect DQ (skip_ws line)) (\<lambda>s1.
       let key = takeWhile is_key_char s1 in
       if key = [] then None
       else
         Option.bind (expect DQ (dropWhile is_key_char s1)) (\<lambda>s2.
         Option.bind (expect CHR ''='' (skip_ws s2)) (\<lambda>s3.
         Option.bind (expect DQ (skip_ws s3)) (\<lambda>s4.
           let (val, s5) = scan_value s4 in
           Option.bind (expect DQ s5) (\<lambda>s6.
           Option.bind (expect CHR '';'' (skip_ws s6)) (\<lambda>s7.
             if skip_ws s7 = [] then Some (key, val) else None))))))"

section \<open>Parsing the localization file\<close>

datatype io_error = FileNotFoundError

type_synonym localizations = "string \<rightharpoonup> string \<times> string"

fun parse_lines :: "string list \<Rightarrow> localizations \<Rightarrow> localizations" where
  \<comment> \<open>the loop over \<^verbatim>\<open>content.splitlines()\<close>, with the dictionary built so far\<close>
  "parse_lines [] localizations = localizations"
| "parse_lines (l # ls) localizations =
     (let line = strip l in
      if line = [] \<or> startswith line ''//'' then parse_lines ls localizations
      else (case match_entry line of
              Some (original_key, val) \<Rightarrow>
                parse_lines ls (localizations(original_key \<mapsto> (snake_to_camel original_key, val)))
            | None \<Rightarrow> parse_lines ls localizations))"

definition parse_localizable_strings :: "string option \<Rightarrow> io_error + localizations" where
  \<comment> \<open>the argument is the text of the localization file, \<open>None\<close> when the file does not exist\<close>
  "parse_localizable_strings file =
     (case file of
        None \<Rightarrow> Inl FileNotFoundError
      | Some content \<Rightarrow> Inr (parse_lines (splitlines content) Map.empty))"

definition serialize :: "string \<Rightarrow> string \<Rightarrow> string" where
  \<comment> \<open>the single-line form the report writes: \<^verbatim>\<open>f'"{original_key}" = "{value}";'\<close>\<close>
  "serialize original_key val = [DQ] @ original_key @ [DQ] @ '' = '' @ [DQ] @ val @ [DQ] @ '';''"

section \<open>Finding the source files\<close>

type_synonym path = "string list"

definition search_extensions :: "string list" where
  "search_extensions = [''.swift'', ''.m'', ''.mm'', ''.h'']"

definition rglob :: "path list \<Rightarrow> string \<Rightarrow> path list" where
  \<comment> \<open>\<^verbatim>\<open>source_dir.rglob('*' + ext)\<close>. A path is its \<^verbatim>\<open>parts\<close>, the name last; \<open>tree\<close> lists
      the paths below the source directory, each with the parts of the source directory in
      front; the result keeps those whose name ends in \<open>ext\<close>\<close>
  "rglob tree ext = filter (\<lambda>p. p \<noteq> [] \<and> suffix ext (last p)) tree"

definition excluded_dirs :: "string set" where
  "excluded_dirs = {''Pods'', ''build'', ''DerivedData'', ''.git''}"

definition find_swift_files :: "path list \<Rightarrow> path list" where
  "find_swift_files tree =
     (let files = concat (map (rglob tree) search_extensions)
      in filter (\<lambda>file. \<not> (\<exists>excluded_dir \<in> excluded_dirs. excluded_dir \<in> set file)) files)"

definition excluded_by_substring :: "path \<Rightarrow> bool" where
  \<comment> \<open>the exclusion rule in the words of the specification: some directory segment of the
      path has an excluded name as a substring\<close>
  "excluded_by_substring p \<longleftrightarrow>
     (\<exists>seg \<in> set (butlast p). \<exists>excluded_dir \<in> excluded_dirs. contains seg excluded_dir)"

section \<open>Classifying the usage of a key\<close>












section \<open>Removing entries\<close>









section \<open>The key-diff tool\<close>

text \<open>
  The key-diff tool matches a stripped line against \<^verbatim>\<open>^"((?:[^"\\]|\\.)*)"\s*=\s*".*?";\<close>
  with \<^verbatim>\<open>pattern.match\<close>, which anchors at the start only. The lazy tail \<^verbatim>\<open>.*?";\<close> matches
  when a quote followed by a semicolon occurs before the first line feed of the rest.
\<close>

definition match_key :: "string \<Rightarrow> string option" where
  "match_key line =
     Option.bind (expect DQ line) (\<lambda>s1.
       let (key, s2) = scan_value s1 in
       Option.bind (expect DQ s2) (\<lambda>s3.
       Option.bind (expect CHR ''='' (skip_ws s3)) (\<lambda>s4.
       Option.bind (expect DQ (skip_ws s4)) (\<lambda>s5.
         if contains (takeWhile (\<lambda>c. c \<noteq> LF) s5) [DQ, CHR '';''] then Some key else None))))"

fun collect_keys :: "string list \<Rightarrow> string set \<Rightarrow> string set" where
  \<comment> \<open>the loop of \<^verbatim>\<open>parse_strings_file_content\<close>\<close>
  "collect_keys [] keys = keys"
| "collect_keys (l # ls) keys =
     (let line = strip l in
      if line = [] \<or> startswith line ''//'' then collect_keys ls keys
      else (case match_key line of
              Some key \<Rightarrow> collect_keys ls (insert key keys)
            | None \<Rightarrow> collect_keys ls keys))"

definition parse_strings_file_content :: "string \<Rightarrow> string set" where
  "parse_strings_file_content content = collect_keys (splitlines content) {}"

datatype report_line =
    MissingHeader string nat
  | MissingKey string
  | NothingMissing string

definition compare_and_display_missing_keys ::
  "string set \<Rightarrow> string set \<Rightarrow> string \<Rightarrow> report_line list \<times> nat" where
  \<comment> \<open>the lines printed, in order, and the returned number; the header line carries the
      name of the compared locale and the number of missing keys\<close>
  "compare_and_display_missing_keys base_keys compare_keys compare_name =
     (let missing_keys = base_keys - compare_keys
      in (if missing_keys \<noteq> {}
            then MissingHeader compare_name (card missing_keys) #
                 map MissingKey (sorted_list_of_set missing_keys)
          else [NothingMissing compare_name],
          card missing_keys))"

definition displayed_keys :: "report_line list \<Rightarrow> string list" where
  \<comment> \<open>the keys shown, in the order of the lines printed\<close>
  "displayed_keys out = concat (map (\<lambda>l. case l of MissingKey k \<Rightarrow> [k] | _ \<Rightarrow> []) out)"

definition basename :: "string \<Rightarrow> string" where
  \<comment> \<open>\<^verbatim>\<open>os.path.basename\<close> on a POSIX path\<close>
  "basename p = rev (takeWhile (\<lambda>c. c \<noteq> CHR ''/'') (rev p))"

definition dirname :: "string \<Rightarrow> string" where
  \<comment> \<open>\<^verbatim>\<open>os.path.dirname\<close> on a POSIX path\<close>
  "dirname p =
     (let head = rev (dropWhile (\<lambda>c. c \<noteq> CHR ''/'') (rev p))
      in if head \<noteq> [] \<and> (\<exists>c \<in> set head. c \<noteq> CHR ''/'')
           then rev (dropWhile (\<lambda>c. c = CHR ''/'') (rev head))
         else head)"

record args =
  base_file :: string
  compare_file1 :: string
  compare_file2 :: "string option"

definition read_file_content :: "(string \<rightharpoonup> string) \<Rightarrow> string \<Rightarrow> string option" where
  \<comment> \<open>\<open>None\<close> when the file does not exist or reading it raises\<close>
  "read_file_content fs path = fs path"

definition main :: "(string \<rightharpoonup> string) \<Rightarrow> args \<Rightarrow> int" where
  \<comment> \<open>the value \<^verbatim>\<open>main()\<close> returns\<close>
  "main fs a =
     (case read_file_content fs (base_file a) of
        None \<Rightarrow> 1
      | Some base_content \<Rightarrow>
          (let base_keys = parse_strings_file_content base_content in
           if base_keys = {} then 1
           else
             (case read_file_content fs (compare_file1 a) of
                None \<Rightarrow> 1
              | Some compare1_content \<Rightarrow>
                  (let compare1_keys = parse_strings_file_content compare1_content;
                       total_missing = snd (compare_and_display_missing_keys base_keys compare1_keys
                                              (basename (dirname (compare_file1 a))));
                       total_missing =
                         (case compare_file2 a of
                            None \<Rightarrow> total_missing
                          | Some f2 \<Rightarrow>
                              if f2 = [] then total_missing
                              else (case read_file_content fs f2 of
                                      None \<Rightarrow> total_missing
                                    | Some compare2_content \<Rightarrow>
                                        total_missing +
                                        snd (compare_and_display_missing_keys base_keys
                                               (parse_strings_file_content compare2_content)
                                               (basename (dirname f2)))))
                   in if total_missing = 0 then 0 else 1))))"

definition script_exit_status :: "(string \<rightharpoonup> string) \<Rightarrow> args \<Rightarrow> int" where
  \<comment> \<open>the module's last statement is the bare call \<^verbatim>\<open>main()\<close>: its value is dropped and
      the interpreter ends with status 0\<close>
  "script_exit_status fs a = (let _ = main fs a in 0)"

section \<open>Valid entries\<close>

definition valid_key :: "string \<Rightarrow> bool" where
  \<comment> \<open>a key as the entry pattern takes it: \<^verbatim>\<open>[a-zA-Z0-9_.-]+\<close>\<close>
  "valid_key k \<longleftrightarrow> k \<noteq> [] \<and> list_all is_key_char k"

fun no_unescaped_quote :: "string \<Rightarrow> bool" where
  \<comment> \<open>"no unescaped quote" in the words of the specification: reading from the left, a
      backslash escapes the character after it, and no quote is left unescaped\<close>
  "no_unescaped_quote [] = True"
| "no_unescaped_quote [c] = (c \<noteq> DQ)"
| "no_unescaped_quote (c # d # ds) =
     (if c = DQ then False
      else if c = BSL then no_unescaped_quote ds
      else no_unescaped_quote (d # ds))"

fun escaped_value :: "string \<Rightarrow> bool" where
  \<comment> \<open>the whole string is matched by \<^verbatim>\<open>(?:[^"\\]|\\.)*\<close>: each unit is one character other
      than quote and backslash, or a backslash with one character other than line feed\<close>
  "escaped_value [] = True"
| "escaped_value [c] = (c \<noteq> DQ \<and> c \<noteq> BSL)"
| "escaped_value (c # d # ds) =
     (if c = DQ then False
      else if c = BSL then d \<noteq> LF \<and> escaped_value ds
      else escaped_value (d # ds))"

section \<open>Facts about the string primitives\<close>

lemma upper_char_cases: "upper_char c = c \<or> upper_char c \<in> set upper_letters"
proof (cases "map_of (zip lower_letters upper_letters) c")
  case None
  then show ?thesis by (simp add: upper_char_def)
next
  case (Some u)
  then have "(c, u) \<in> set (zip lower_letters upper_letters)" by (rule map_of_SomeD)
  then have "u \<in> set upper_letters" by (rule set_zip_rightD)
  with Some show ?thesis by (simp add: upper_char_def)
qed

lemma letters_length: "length lower_letters = length upper_letters"
  by (simp add: lower_letters_def upper_letters_def)

lemma upper_letters_below: "\<forall>c \<in> set upper_letters. (of_char c :: nat) < 97"
  by (simp add: upper_letters_def)

lemma lower_letters_above: "\<forall>c \<in> set lower_letters. (97 :: nat) \<le> of_char c"
  by (simp add: lower_letters_def)

lemma upper_not_lower: "u \<in> set upper_letters \<Longrightarrow> u \<notin> set lower_letters"
  using upper_letters_below lower_letters_above by fastforce

lemma upper_char_fixes_upper:
  assumes "u \<in> set upper_letters"
  shows "upper_char u = u"
proof -
  have "u \<notin> set lower_letters" using assms by (rule upper_not_lower)
  then have "map_of (zip lower_letters upper_letters) u = None"
    using letters_length by (simp add: map_of_zip_is_None)
  then show ?thesis by (simp add: upper_char_def)
qed

lemma upper_char_idem: "upper_char (upper_char c) = upper_char c"
  using upper_char_cases [of c] upper_char_fixes_upper by auto


lemma upper_char_not_sep:
  assumes "s = CHR ''.'' \<or> s = CHR ''_''" and "c \<noteq> s"
  shows "upper_char c \<noteq> s"
proof -
  have "s \<notin> set upper_letters" using assms(1) by (auto simp: upper_letters_def)
  with upper_char_cases [of c] assms(2) show ?thesis by auto
qed

lemma lower_char_cases: "lower_char c = c \<or> lower_char c \<in> set lower_letters"
proof (cases "map_of (zip upper_letters lower_letters) c")
  case None
  then show ?thesis by (simp add: lower_char_def)
next
  case (Some u)
  then have "(c, u) \<in> set (zip upper_letters lower_letters)" by (rule map_of_SomeD)
  then have "u \<in> set lower_letters" by (rule set_zip_rightD)
  with Some show ?thesis by (simp add: lower_char_def)
qed

lemma lower_char_not_sep:
  assumes "s = CHR ''.'' \<or> s = CHR ''_''" and "c \<noteq> s"
  shows "lower_char c \<noteq> s"
proof -
  have "s \<notin> set lower_letters" using assms(1) by (auto simp: lower_letters_def)
  with lower_char_cases [of c] assms(2) show ?thesis by auto
qed

lemma split_str_not_Nil: "split_str sep s \<noteq> []"
  by (induction s) (simp_all add: Let_def)

lemma split_str_no_sep: "p \<in> set (split_str sep s) \<Longrightarrow> sep \<notin> set p"
proof (induction s arbitrary: p)
  case Nil
  then show ?case by simp
next
  case (Cons c cs)
  have ne: "split_str sep cs \<noteq> []" by (rule split_str_not_Nil)
  show ?case
  proof (cases "c = sep")
    case True
    with Cons.prems have "p = [] \<or> p \<in> set (split_str sep cs)" by simp
    then show ?thesis using Cons.IH by auto
  next
    case False
    with Cons.prems have "p = c # hd (split_str sep cs) \<or> p \<in> set (tl (split_str sep cs))"
      by (simp add: Let_def)
    then show ?thesis
    proof
      assume "p = c # hd (split_str sep cs)"
      moreover have "sep \<notin> set (hd (split_str sep cs))"
        using Cons.IH ne by simp
      ultimately show ?thesis using False by simp
    next
      assume "p \<in> set (tl (split_str sep cs))"
      then have "p \<in> set (split_str sep cs)" by (rule list.set_sel(2) [OF ne])
      then show ?thesis by (rule Cons.IH)
    qed
  qed
qed

lemma split_str_plain: "sep \<notin> set p \<Longrightarrow> split_str sep p = [p]"
  by (induction p) (auto simp: Let_def)

lemma split_str_append: "sep \<notin> set p \<Longrightarrow> split_str sep (p @ sep # r) = p # split_str sep r"
  by (induction p) (auto simp: Let_def)

lemma split_str_join:
  assumes "ps \<noteq> []" and "\<forall>p \<in> set ps. sep \<notin> set p"
  shows "split_str sep (join_str [sep] ps) = ps"
  using assms
proof (induction "[sep]" ps rule: join_str.induct)
  case 1
  then show ?case by simp
next
  case (2 p)
  then show ?case by (simp add: split_str_plain)
next
  case (3 p q ps)
  then have ih: "split_str sep (join_str [sep] (q # ps)) = q # ps" by simp
  from 3 have "sep \<notin> set p" by simp
  with ih show ?case by (simp add: split_str_append)
qed


lemma join_split_str: "join_str [sep] (split_str sep s) = s"
proof (induction s)
  case Nil
  then show ?case by simp
next
  case (Cons c cs)
  obtain p ps where r: "split_str sep cs = p # ps"
    using split_str_not_Nil [of sep cs] by (cases "split_str sep cs") auto
  show ?case
  proof (cases "c = sep")
    case True
    with Cons r show ?thesis by simp
  next
    case False
    with Cons r show ?thesis by (cases ps) (simp_all add: Let_def)
  qed
qed

lemma convert_enumerate:
  assumes "parts \<noteq> []" and "n = k + length parts"
  shows "map (\<lambda>(i, part). convert_part n i part) (enumerate k parts) =
         map title_part (butlast parts) @ [camel_part (last parts)]"
  using assms
proof (induction parts arbitrary: k)
  case Nil
  then show ?case by simp
next
  case (Cons p ps)
  show ?case
  proof (cases "ps = []")
    case True
    with Cons.prems show ?thesis by (simp add: convert_part_def)
  next
    case False
    with Cons.prems have "n = Suc k + length ps" by simp
    with False have "map (\<lambda>(i, part). convert_part n i part) (enumerate (Suc k) ps) =
         map title_part (butlast ps) @ [camel_part (last ps)]"
      by (rule Cons.IH)
    moreover from False Cons.prems have "convert_part n k p = title_part p"
      by (cases ps) (simp_all add: convert_part_def)
    ultimately show ?thesis using False by simp
  qed
qed

lemma snake_to_camel_parts:
  "snake_to_camel k =
     join_str ''.'' (map title_part (butlast (split_str CHR ''.'' k)) @
                     [camel_part (last (split_str CHR ''.'' k))])"
proof -
  have "map (\<lambda>(i, part). convert_part (length (split_str CHR ''.'' k)) i part)
          (enumerate 0 (split_str CHR ''.'' k)) =
        map title_part (butlast (split_str CHR ''.'' k)) @
          [camel_part (last (split_str CHR ''.'' k))]"
    by (rule convert_enumerate [OF split_str_not_Nil]) simp
  then show ?thesis by (simp add: snake_to_camel_def Let_def)
qed


lemma title_part_no_dot: "CHR ''.'' \<notin> set p \<Longrightarrow> CHR ''.'' \<notin> set (title_part p)"
proof (cases p)
  case Nil
  then show ?thesis by (simp add: title_part_def)
next
  case (Cons c cs)
  assume "CHR ''.'' \<notin> set p"
  with Cons have "c \<noteq> CHR ''.''" and cs: "CHR ''.'' \<notin> set cs" by auto
  then have "upper_char c \<noteq> CHR ''.''" by (simp add: upper_char_not_sep)
  with cs Cons show ?thesis by (auto simp: title_part_def)
qed

lemma title_part_idem: "title_part (title_part p) = title_part p"
  by (cases p) (simp_all add: title_part_def upper_char_idem)

lemma capitalize_no_sep:
  assumes "s = CHR ''.'' \<or> s = CHR ''_''" and "s \<notin> set w"
  shows "s \<notin> set (capitalize w)"
proof (cases w)
  case Nil
  then show ?thesis by (simp add: capitalize_def)
next
  case (Cons c cs)
  with assms(2) have "c \<noteq> s" and "\<forall>d \<in> set cs. d \<noteq> s" by auto
  then have "upper_char c \<noteq> s" and "\<forall>d \<in> set cs. lower_char d \<noteq> s"
    using assms(1) by (simp_all add: upper_char_not_sep lower_char_not_sep)
  with Cons show ?thesis by (auto simp: capitalize_def)
qed

lemma camel_part_no_sep:
  assumes "s = CHR ''.'' \<or> s = CHR ''_''" and "s = CHR ''.'' \<longrightarrow> s \<notin> set l"
  shows "s \<notin> set (camel_part l)"
proof (cases "CHR ''_'' \<in> set l")
  case False
  with assms show ?thesis by (auto simp: camel_part_def)
next
  case True
  let ?subs = "split_str CHR ''_'' l"
  have ne: "?subs \<noteq> []" by (rule split_str_not_Nil)
  have l: "join_str ''_'' ?subs = l" by (rule join_split_str)
  have sub_free: "s \<notin> set w" if w: "w \<in> set ?subs" for w
  proof (cases "s = CHR ''_''")
    case True
    with w show ?thesis by (simp add: split_str_no_sep)
  next
    case False
    with assms have nl: "s \<notin> set l" by simp
    have "set w \<subseteq> set (join_str ''_'' ps)" if "w \<in> set ps" for ps
      using that by (induction "''_''" ps rule: join_str.induct) auto
    with w l have "set w \<subseteq> set l" by metis
    with nl show ?thesis by auto
  qed
  have hd_free: "s \<notin> set (hd ?subs)" using ne sub_free by simp
  have "s \<notin> set (capitalize w)" if "w \<in> set (tl ?subs)" for w
  proof -
    from that have "w \<in> set ?subs" by (rule list.set_sel(2) [OF ne])
    then have "s \<notin> set w" by (rule sub_free)
    with assms(1) show ?thesis by (rule capitalize_no_sep)
  qed
  with hd_free True show ?thesis by (auto simp: camel_part_def Let_def)
qed

lemma camel_part_idem: "camel_part (camel_part l) = camel_part l"
proof -
  have "CHR ''_'' \<notin> set (camel_part l)" by (rule camel_part_no_sep) simp_all
  then show ?thesis by (simp add: camel_part_def [of "camel_part l"])
qed

text \<open>
  Claim C10. The key transformation is idempotent: applying \<^verbatim>\<open>snake_to_camel\<close> to its own
  output gives that output again, for every key.
\<close>

theorem snake_to_camel_idempotent:
  "snake_to_camel (snake_to_camel k) = snake_to_camel k"
proof -
  let ?parts = "split_str CHR ''.'' k"
  let ?res = "map title_part (butlast ?parts) @ [camel_part (last ?parts)]"
  have ne: "?parts \<noteq> []" by (rule split_str_not_Nil)
  have first: "snake_to_camel k = join_str ''.'' ?res" by (rule snake_to_camel_parts)
  have free: "\<forall>p \<in> set ?res. CHR ''.'' \<notin> set p"
  proof
    fix p assume "p \<in> set ?res"
    then consider q where "q \<in> set (butlast ?parts)" "p = title_part q"
      | "p = camel_part (last ?parts)" by auto
    then show "CHR ''.'' \<notin> set p"
    proof cases
      case 1
      from 1(1) have "q \<in> set ?parts" by (rule in_set_butlastD)
      then have "CHR ''.'' \<notin> set q" by (rule split_str_no_sep)
      with 1(2) show ?thesis by (simp add: title_part_no_dot)
    next
      case 2
      have "last ?parts \<in> set ?parts" using ne by (rule last_in_set)
      then have "CHR ''.'' \<notin> set (last ?parts)" by (rule split_str_no_sep)
      with 2 show ?thesis by (simp add: camel_part_no_sep)
    qed
  qed
  have "split_str CHR ''.'' (join_str ''.'' ?res) = ?res"
    by (rule split_str_join [OF _ free]) simp
  with first have again: "split_str CHR ''.'' (snake_to_camel k) = ?res" by simp
  have "snake_to_camel (snake_to_camel k) =
          join_str ''.'' (map title_part (butlast ?res) @ [camel_part (last ?res)])"
    by (simp only: snake_to_camel_parts [of "snake_to_camel k"] again)
  also have "\<dots> = join_str ''.'' ?res"
    by (simp add: title_part_idem camel_part_idem comp_def)
  finally show ?thesis using first by simp
qed

section \<open>The key transformation, segment by segment\<close>

text \<open>
  Claim C2, as amended. \<^verbatim>\<open>snake_to_camel\<close> splits the key on the dot, upper-cases the first
  character of every segment but the last and leaves the rest of it unchanged; in a last
  segment with an underscore it keeps the first sub-segment, and turns every later
  sub-segment into its first character upper-cased followed by its other characters
  lower-cased (\<^verbatim>\<open>str.capitalize\<close>), joined without separator; a last segment without
  underscore is unchanged. The four documented examples come out as written.
\<close>

theorem snake_to_camel_segments:
  "snake_to_camel k =
     (let segments = split_str CHR ''.'' k; l = last segments
      in join_str ''.''
           (map capitalize_first (butlast segments) @
            [if CHR ''_'' \<in> set l
               then (let subs = split_str CHR ''_'' l
                     in hd subs @
                        concat (map (\<lambda>w. case w of [] \<Rightarrow> [] | c # cs \<Rightarrow> upper_char c # map lower_char cs)
                                  (tl subs)))
             else l])) \<and>
   snake_to_camel ''common.ok'' = ''Common.ok'' \<and>
   snake_to_camel ''market.header.name'' = ''Market.Header.name'' \<and>
   snake_to_camel ''addbalance.flashexchange.subtitle'' = ''Addbalance.Flashexchange.subtitle'' \<and>
   snake_to_camel ''futuresrecords.header.amount_usdt'' = ''Futuresrecords.Header.amountUsdt''"
proof -
  have t: "title_part = capitalize_first"
  proof
    fix p show "title_part p = capitalize_first p"
      by (cases p) (simp_all add: title_part_def capitalize_first_def)
  qed
  have c: "capitalize = (\<lambda>w. case w of [] \<Rightarrow> [] | c # cs \<Rightarrow> upper_char c # map lower_char cs)"
    by (rule ext) (simp add: capitalize_def)
  have general: "snake_to_camel k =
     (let segments = split_str CHR ''.'' k; l = last segments
      in join_str ''.''
           (map capitalize_first (butlast segments) @
            [if CHR ''_'' \<in> set l
               then (let subs = split_str CHR ''_'' l
                     in hd subs @
                        concat (map (\<lambda>w. case w of [] \<Rightarrow> [] | c # cs \<Rightarrow> upper_char c # map lower_char cs)
                                  (tl subs)))
             else l]))"
    unfolding snake_to_camel_parts camel_part_def t c Let_def ..
  have e1: "snake_to_camel ''common.ok'' = ''Common.ok''" by code_simp
  have e2: "snake_to_camel ''market.header.name'' = ''Market.Header.name''" by code_simp
  have e3: "snake_to_camel ''addbalance.flashexchange.subtitle'' = ''Addbalance.Flashexchange.subtitle''"
    by code_simp
  have e4: "snake_to_camel ''futuresrecords.header.amount_usdt'' = ''Futuresrecords.Header.amountUsdt''"
    by code_simp
  from general e1 e2 e3 e4 show ?thesis by (intro conjI)
qed

text \<open>
  The claim as written, with only the first character of a sub-segment changed
  (\<^const>\<open>transform_spec\<close>), fails on a key whose last segment holds upper-case letters after
  an underscore.
\<close>

theorem snake_to_camel_lowercases_counterexample:
  "snake_to_camel ''market.header.amount_USDT'' = ''Market.Header.amountUsdt'' \<and>
   transform_spec ''market.header.amount_USDT'' = ''Market.Header.amountUSDT'' \<and>
   snake_to_camel ''market.header.amount_USDT'' \<noteq> transform_spec ''market.header.amount_USDT''"
  by code_simp

theorem snake_to_camel_segments_witness:
  "snake_to_camel ''a.b_cD'' = ''A.bCd''"
  using snake_to_camel_segments [of "''a.b_cD''"]
  by (simp add: Let_def capitalize_first_def upper_char_def lower_char_def lower_letters_def upper_letters_def)

section \<open>Removing entries: what is kept, what is counted\<close>

lemma match_entry_needs_quote:
  assumes "s = [] \<or> (\<exists>c r. s = c # r \<and> \<not> is_space c \<and> c \<noteq> DQ)"
  shows "match_entry s = None"
  using assms by (auto simp: match_entry_def skip_ws_def expect_def)

lemma blank_or_comment_no_match:
  assumes "strip l = [] \<or> startswith (strip l) ''//''"
  shows "match_entry (strip l) = None"
proof (rule match_entry_needs_quote)
  from assms show "strip l = [] \<or> (\<exists>c r. strip l = c # r \<and> \<not> is_space c \<and> c \<noteq> DQ)"
  proof
    assume "strip l = []" then show ?thesis by simp
  next
    assume "startswith (strip l) ''//''"
    then obtain r where "strip l = CHR ''/'' # r"
      by (auto simp: startswith_def prefix_def)
    moreover have "\<not> is_space CHR ''/''" by (simp add: is_space_def)
    ultimately show ?thesis by simp
  qed
qed














section \<open>The parsed table\<close>

lemma parse_lines_step:
  "parse_lines (l # ls) loc =
     parse_lines ls (case match_entry (strip l) of
                       Some (k, v) \<Rightarrow> loc(k \<mapsto> (snake_to_camel k, v))
                     | None \<Rightarrow> loc)"
proof (cases "strip l = [] \<or> startswith (strip l) ''//''")
  case True
  then have "match_entry (strip l) = None" by (rule blank_or_comment_no_match)
  with True show ?thesis by (simp add: Let_def)
next
  case False
  then show ?thesis by (simp add: Let_def split: option.splits)
qed

lemma parse_lines_append:
  "parse_lines (xs @ ys) loc = parse_lines ys (parse_lines xs loc)"
proof (induction xs arbitrary: loc)
  case Nil
  then show ?case by simp
next
  case (Cons x xs)
  show ?case unfolding append_Cons parse_lines_step Cons.IH ..
qed

lemma parse_lines_other_keys:
  assumes "\<forall>l \<in> set ls. \<forall>v. match_entry (strip l) \<noteq> Some (k, v)"
  shows "parse_lines ls loc k = loc k"
  using assms
proof (induction ls arbitrary: loc)
  case Nil
  then show ?case by simp
next
  case (Cons l ls)
  let ?loc' = "case match_entry (strip l) of
                 Some (k', v) \<Rightarrow> loc(k' \<mapsto> (snake_to_camel k', v)) | None \<Rightarrow> loc"
  from Cons.prems have rest: "\<forall>l \<in> set ls. \<forall>v. match_entry (strip l) \<noteq> Some (k, v)"
    and here: "\<forall>v. match_entry (strip l) \<noteq> Some (k, v)" by simp_all
  from here have "?loc' k = loc k" by (auto split: option.splits)
  moreover have "parse_lines ls ?loc' k = ?loc' k" using rest by (rule Cons.IH)
  ultimately show ?case by (simp only: parse_lines_step)
qed

text \<open>
  Claim C8. \<^verbatim>\<open>parse_localizable_strings\<close> returns a table, a partial function, so that a
  key has at most one value in it. A key that a line of the text parses to, with no later
  line parsing to the same key, is mapped to the value of that line (together with its
  transformed key): the last matching occurrence wins. A key that no line parses to is
  absent.
\<close>

theorem parse_last_occurrence_wins:
  "\<exists>table. parse_localizable_strings (Some content) = Inr table \<and>
     (\<forall>pre l post k v.
        splitlines content = pre @ l # post \<and> match_entry (strip l) = Some (k, v) \<and>
        (\<forall>l' \<in> set post. \<forall>v'. match_entry (strip l') \<noteq> Some (k, v')) \<longrightarrow>
        table k = Some (snake_to_camel k, v)) \<and>
     (\<forall>k. (\<forall>l \<in> set (splitlines content). \<forall>v. match_entry (strip l) \<noteq> Some (k, v)) \<longrightarrow>
        table k = None)"
proof (intro exI conjI allI impI)
  show "parse_localizable_strings (Some content) = Inr (parse_lines (splitlines content) Map.empty)"
    by (simp add: parse_localizable_strings_def)
next
  fix pre l post k v
  assume a: "splitlines content = pre @ l # post \<and> match_entry (strip l) = Some (k, v) \<and>
        (\<forall>l' \<in> set post. \<forall>v'. match_entry (strip l') \<noteq> Some (k, v'))"
  let ?before = "parse_lines pre Map.empty"
  have "parse_lines (splitlines content) Map.empty k =
          parse_lines (l # post) ?before k"
    using a by (simp only: parse_lines_append)
  also have "\<dots> = parse_lines post (?before(k \<mapsto> (snake_to_camel k, v))) k"
    using a by (simp only: parse_lines_step option.case prod.case)
  also have "\<dots> = (?before(k \<mapsto> (snake_to_camel k, v))) k"
    using a by (intro parse_lines_other_keys) simp
  finally show "parse_lines (splitlines content) Map.empty k = Some (snake_to_camel k, v)"
    by simp
next
  fix k
  assume "\<forall>l \<in> set (splitlines content). \<forall>v. match_entry (strip l) \<noteq> Some (k, v)"
  then have "parse_lines (splitlines content) Map.empty k = Map.empty k"
    by (rule parse_lines_other_keys)
  then show "parse_lines (splitlines content) Map.empty k = None" by simp
qed

theorem parse_last_occurrence_wins_witness:
  "\<exists>table. parse_localizable_strings
              (Some (serialize ''a.b'' ''1'' @ [LF] @ serialize ''c'' ''x'' @ [LF] @
                     serialize ''a.b'' ''2'' @ [LF])) = Inr table \<and>
           table ''a.b'' = Some (''A.b'', ''2'') \<and> table ''d'' = None"
proof -
  let ?content = "serialize ''a.b'' ''1'' @ [LF] @ serialize ''c'' ''x'' @ [LF] @
                  serialize ''a.b'' ''2'' @ [LF]"
  have ls: "splitlines ?content =
              [serialize ''a.b'' ''1'', serialize ''c'' ''x''] @ serialize ''a.b'' ''2'' # []"
    by code_simp
  have m1: "match_entry (strip (serialize ''a.b'' ''1'')) = Some (''a.b'', ''1'')" by code_simp
  have m2: "match_entry (strip (serialize ''c'' ''x'')) = Some (''c'', ''x'')" by code_simp
  have m3: "match_entry (strip (serialize ''a.b'' ''2'')) = Some (''a.b'', ''2'')" by code_simp
  have c: "snake_to_camel ''a.b'' = ''A.b''" by code_simp
  from parse_last_occurrence_wins [of ?content] obtain table where
    t: "parse_localizable_strings (Some ?content) = Inr table"
    and last: "\<And>pre l post k v.
        splitlines ?content = pre @ l # post \<and> match_entry (strip l) = Some (k, v) \<and>
        (\<forall>l' \<in> set post. \<forall>v'. match_entry (strip l') \<noteq> Some (k, v')) \<Longrightarrow>
        table k = Some (snake_to_camel k, v)"
    and none: "\<And>k. (\<forall>l \<in> set (splitlines ?content). \<forall>v. match_entry (strip l) \<noteq> Some (k, v)) \<Longrightarrow>
        table k = None"
    by blast
  have "table ''a.b'' = Some (snake_to_camel ''a.b'', ''2'')"
    using ls m3
    by (intro last [of "[serialize ''a.b'' ''1'', serialize ''c'' ''x'']" "serialize ''a.b'' ''2''" "[]"])
       simp
  moreover have "table ''d'' = None"
    using ls m1 m2 m3 by (intro none) simp
  ultimately show ?thesis using t c by auto
qed

section \<open>Serializing and parsing one entry\<close>

lemma key_char_range:
  assumes "is_key_char c"
  shows "(45 :: nat) \<le> of_char c"
proof -
  have "\<forall>c \<in> set upper_letters. (45 :: nat) \<le> of_char c" by (simp add: upper_letters_def)
  moreover have "\<forall>c \<in> set ''0123456789''. (45 :: nat) \<le> of_char c" by simp
  moreover have "\<forall>c \<in> set ''_.-''. (45 :: nat) \<le> of_char c" by simp
  moreover have "\<forall>c \<in> set lower_letters. (45 :: nat) \<le> of_char c"
    using lower_letters_above by fastforce
  ultimately show ?thesis using assms unfolding is_key_char_def by blast
qed

lemma key_char_range_upper:
  assumes "is_key_char c"
  shows "of_char c \<le> (122 :: nat)"
proof -
  have "\<forall>c \<in> set upper_letters. of_char c \<le> (122 :: nat)"
    using upper_letters_below by fastforce
  moreover have "\<forall>c \<in> set ''0123456789''. of_char c \<le> (122 :: nat)" by simp
  moreover have "\<forall>c \<in> set ''_.-''. of_char c \<le> (122 :: nat)" by simp
  moreover have "\<forall>c \<in> set lower_letters. of_char c \<le> (122 :: nat)"
    by (simp add: lower_letters_def)
  ultimately show ?thesis using assms unfolding is_key_char_def by blast
qed

lemma space_range: "is_space c \<Longrightarrow> (of_char c :: nat) \<le> 32 \<or> (133 :: nat) \<le> of_char c"
  by (auto simp: is_space_def)

lemma linebreak_range: "is_linebreak c \<Longrightarrow> (of_char c :: nat) \<le> 32 \<or> (133 :: nat) \<le> of_char c"
  by (auto simp: is_linebreak_def)

lemma key_char_plain:
  assumes "is_key_char c"
  shows "\<not> is_space c" and "\<not> is_linebreak c" and "c \<noteq> DQ"
proof -
  from assms have r: "(45 :: nat) \<le> of_char c" "of_char c \<le> (122 :: nat)"
    by (rule key_char_range, rule key_char_range_upper)
  show "\<not> is_space c" using r space_range [of c] by auto
  show "\<not> is_linebreak c" using r linebreak_range [of c] by auto
  show "c \<noteq> DQ" using r by auto
qed

lemma not_key_char_DQ: "\<not> is_key_char DQ"
  using key_char_plain(3) by blast

lemma splitlines_single:
  assumes "s \<noteq> []" and "\<forall>c \<in> set s. \<not> is_linebreak c"
  shows "splitlines s = [s]"
proof -
  from assms(2) have d: "dropWhile (\<lambda>c. \<not> is_linebreak c) s = []" by simp
  show ?thesis by (subst splitlines.simps) (simp only: d assms(1) if_False list.case)
qed

lemma strip_unchanged:
  assumes "s \<noteq> []" and "\<not> is_space (hd s)" and "\<not> is_space (last s)"
  shows "strip s = s"
proof -
  from assms(1,2) have "dropWhile is_space s = s" by (cases s) simp_all
  moreover from assms(1,3) have "dropWhile is_space (rev s) = rev s"
    by (cases "rev s") (simp_all add: last_rev [symmetric] hd_rev)
  ultimately show ?thesis by (simp add: strip_def)
qed

lemma scan_value_exact:
  "escaped_value v \<Longrightarrow> scan_value (v @ DQ # r) = (v, DQ # r)"
proof (induction v rule: escaped_value.induct)
  case 1
  show ?case by (cases r) simp_all
next
  case (2 c)
  then show ?case by (cases r) simp_all
next
  case (3 c d ds)
  then show ?case by (cases ds) (auto split: if_splits)
qed


lemma match_entry_serialize:
  assumes "valid_key k" and "escaped_value v"
  shows "match_entry (serialize k v) = Some (k, v)"
proof -
  from assms(1) have kne: "k \<noteq> []" and kc: "\<forall>c \<in> set k. is_key_char c"
    by (simp_all add: valid_key_def list_all_iff)
  have sp: "\<not> is_space DQ" "\<not> is_space CHR ''=''" "\<not> is_space CHR '';''" "is_space CHR '' ''"
    by (simp_all add: is_space_def)
  define r where "r = v @ DQ # '';''"
  have shape: "serialize k v = DQ # k @ DQ # CHR '' '' # CHR ''='' # CHR '' '' # DQ # r"
    by (simp add: serialize_def r_def)
  have tk: "takeWhile is_key_char (k @ DQ # x) = k" for x
    using kc not_key_char_DQ by (simp add: takeWhile_append2)
  have dk: "dropWhile is_key_char (k @ DQ # x) = DQ # x" for x
    using kc not_key_char_DQ by (simp add: dropWhile_append2)
  have sv: "scan_value r = (v, DQ # '';'')"
    unfolding r_def using assms(2) by (rule scan_value_exact)
  show ?thesis
    unfolding shape match_entry_def
    by (simp add: skip_ws_def expect_def sp tk dk sv kne)
qed

text \<open>
  Claim C9, as amended. For a non-empty key over \<^verbatim>\<open>[A-Za-z0-9_.-]\<close> and a value that the
  value group of the entry pattern matches as a whole (single characters other than quote
  and backslash, and backslash pairs) and that holds no line boundary, parsing the line
  \<^verbatim>\<open>"key" = "value";\<close> gives the table with exactly this key, mapped to its transformed key
  and this value.
\<close>

theorem parse_serialize_roundtrip:
  assumes "valid_key k" and "escaped_value v" and "list_all (\<lambda>c. \<not> is_linebreak c) v"
  shows "parse_localizable_strings (Some (serialize k v)) = Inr [k \<mapsto> (snake_to_camel k, v)]"
proof -
  let ?s = "serialize k v"
  from assms(1) have kc: "\<forall>c \<in> set k. is_key_char c"
    by (simp add: valid_key_def list_all_iff)
  have other: "\<not> is_linebreak DQ" "\<not> is_linebreak CHR '' ''" "\<not> is_linebreak CHR ''=''"
    "\<not> is_linebreak CHR '';''"
    by (simp_all add: is_linebreak_def)
  have "\<forall>c \<in> set ?s. \<not> is_linebreak c"
    using kc key_char_plain(2) assms(3) other by (auto simp: serialize_def list_all_iff)
  moreover have ne: "?s \<noteq> []" by (simp add: serialize_def)
  ultimately have lines: "splitlines ?s = [?s]" by (intro splitlines_single)
  have "hd ?s = DQ" and "last ?s = CHR '';''" by (simp_all add: serialize_def)
  then have "\<not> is_space (hd ?s)" and "\<not> is_space (last ?s)" by (simp_all add: is_space_def)
  with ne have st: "strip ?s = ?s" by (intro strip_unchanged)
  have m: "match_entry (strip ?s) = Some (k, v)"
    unfolding st using assms(1,2) by (rule match_entry_serialize)
  have "parse_lines [?s] Map.empty = [k \<mapsto> (snake_to_camel k, v)]"
    by (simp only: parse_lines_step m option.case prod.case parse_lines.simps)
  with lines show ?thesis by (simp add: parse_localizable_strings_def)
qed

theorem parse_serialize_roundtrip_witness:
  "parse_localizable_strings (Some (serialize ''market.header.amount_usdt'' (''Say '' @ [BSL, DQ] @ ''hi'' @ [BSL, DQ]))) =
     Inr [''market.header.amount_usdt'' \<mapsto> (''Market.Header.amountUsdt'', ''Say '' @ [BSL, DQ] @ ''hi'' @ [BSL, DQ])]"
proof -
  have k: "valid_key ''market.header.amount_usdt''" by code_simp
  have v: "escaped_value (''Say '' @ [BSL, DQ] @ ''hi'' @ [BSL, DQ])" by simp
  have l: "list_all (\<lambda>c. \<not> is_linebreak c) (''Say '' @ [BSL, DQ] @ ''hi'' @ [BSL, DQ])"
    by (simp add: is_linebreak_def)
  have c: "snake_to_camel ''market.header.amount_usdt'' = ''Market.Header.amountUsdt''" by code_simp
  from parse_serialize_roundtrip [OF k v l] c show ?thesis by simp
qed

text \<open>
  The claim as written fails: a value made of one backslash holds no quote at all, yet in
  the serialized line the backslash escapes the closing quote, the line does not match,
  and the parsed table is empty.
\<close>

theorem parse_serialize_trailing_backslash_counterexample:
  "valid_key ''k'' \<and> no_unescaped_quote [BSL] \<and>
   parse_localizable_strings (Some (serialize ''k'' [BSL])) = Inr Map.empty"
proof -
  have k: "valid_key ''k''" by code_simp
  have l: "splitlines (serialize ''k'' [BSL]) = [serialize ''k'' [BSL]]" by code_simp
  have m: "match_entry (strip (serialize ''k'' [BSL])) = None" by code_simp
  have "parse_lines [serialize ''k'' [BSL]] Map.empty = Map.empty"
    by (simp only: parse_lines_step m option.case parse_lines.simps)
  with k l show ?thesis by (simp add: parse_localizable_strings_def)
qed

section \<open>The usage classifier\<close>
















section \<open>The source scanner\<close>

lemma excluded_name_has_no_extension:
  "\<forall>ext \<in> set search_extensions.
     \<forall>n \<in> set [''Pods'', ''build'', ''DerivedData'', ''.git'']. \<not> suffix ext n"
  by code_simp

lemma source_name_not_excluded:
  assumes "ext \<in> set search_extensions" and "suffix ext n"
  shows "n \<notin> excluded_dirs"
proof
  assume "n \<in> excluded_dirs"
  then have "n \<in> set [''Pods'', ''build'', ''DerivedData'', ''.git'']"
    by (simp add: excluded_dirs_def)
  with excluded_name_has_no_extension assms(1) have "\<not> suffix ext n" by blast
  with assms(2) show False by simp
qed

lemma set_find_swift_files:
  "set (find_swift_files tree) =
     {p \<in> set tree. p \<noteq> [] \<and> (\<exists>ext \<in> set search_extensions. suffix ext (last p)) \<and>
                    (\<forall>seg \<in> set p. seg \<notin> excluded_dirs)}"
  unfolding find_swift_files_def rglob_def Let_def by auto

text \<open>
  Claim C5, as amended. \<^verbatim>\<open>find_swift_files\<close> returns a path exactly when it is listed below
  the source directory, its name ends in one of the four extensions, and no directory
  segment of it is equal to one of \<^verbatim>\<open>Pods\<close>, \<^verbatim>\<open>build\<close>, \<^verbatim>\<open>DerivedData\<close>, \<^verbatim>\<open>.git\<close>:
  the test \<^verbatim>\<open>excluded_dir in file.parts\<close> compares whole segments. The segments are those of
  the full path, the ones of the source directory included.
\<close>

theorem find_swift_files_whole_segment:
  "p \<in> set (find_swift_files tree) \<longleftrightarrow>
     p \<in> set tree \<and> p \<noteq> [] \<and> (\<exists>ext \<in> set search_extensions. suffix ext (last p)) \<and>
     \<not> (\<exists>seg \<in> set (butlast p). seg \<in> excluded_dirs)"
proof (cases "p = []")
  case True
  then show ?thesis by (simp add: set_find_swift_files)
next
  case False
  then have parts: "set p = insert (last p) (set (butlast p))"
    by (metis append_butlast_last_id list.simps(15) rotate1.simps(2) set_rotate1)
  show ?thesis
  proof (cases "\<exists>ext \<in> set search_extensions. suffix ext (last p)")
    case True
    then have "last p \<notin> excluded_dirs" using source_name_not_excluded by blast
    with parts have "(\<forall>seg \<in> set p. seg \<notin> excluded_dirs) \<longleftrightarrow>
        \<not> (\<exists>seg \<in> set (butlast p). seg \<in> excluded_dirs)" by simp
    then show ?thesis by (simp add: set_find_swift_files)
  next
    case False
    then show ?thesis by (simp add: set_find_swift_files)
  qed
qed

theorem find_swift_files_whole_segment_witness:
  "[''App'', ''MyPods'', ''View.swift''] \<in>
     set (find_swift_files [[''App'', ''MyPods'', ''View.swift''], [''App'', ''Pods'', ''Lib.swift''],
                            [''App'', ''notes.txt'']]) \<and>
   [''App'', ''Pods'', ''Lib.swift''] \<notin>
     set (find_swift_files [[''App'', ''MyPods'', ''View.swift''], [''App'', ''Pods'', ''Lib.swift''],
                            [''App'', ''notes.txt'']])"
proof -
  let ?tree = "[[''App'', ''MyPods'', ''View.swift''], [''App'', ''Pods'', ''Lib.swift''],
                [''App'', ''notes.txt'']]"
  have e: "\<exists>ext \<in> set search_extensions. suffix ext (last [''App'', ''MyPods'', ''View.swift''])"
    by code_simp
  have n: "\<not> (\<exists>seg \<in> set (butlast [''App'', ''MyPods'', ''View.swift'']). seg \<in> excluded_dirs)"
    by (simp add: excluded_dirs_def)
  have x: "\<exists>seg \<in> set (butlast [''App'', ''Pods'', ''Lib.swift'']). seg \<in> excluded_dirs"
    by (simp add: excluded_dirs_def)
  from find_swift_files_whole_segment [of "[''App'', ''MyPods'', ''View.swift'']" ?tree] e n
  have "[''App'', ''MyPods'', ''View.swift''] \<in> set (find_swift_files ?tree)" by simp
  moreover from find_swift_files_whole_segment [of "[''App'', ''Pods'', ''Lib.swift'']" ?tree] x
  have "[''App'', ''Pods'', ''Lib.swift''] \<notin> set (find_swift_files ?tree)" by blast
  ultimately show ?thesis ..
qed

text \<open>
  The claim as written fails: the directory segment \<^verbatim>\<open>MyPods\<close> has \<^verbatim>\<open>Pods\<close> as a
  substring, and the file below it is returned all the same.
\<close>

theorem find_swift_files_substring_counterexample:
  "excluded_by_substring [''App'', ''MyPods'', ''View.swift''] \<and>
   find_swift_files [[''App'', ''MyPods'', ''View.swift'']] = [[''App'', ''MyPods'', ''View.swift'']]"
proof
  have "contains ''MyPods'' ''Pods''" by code_simp
  then show "excluded_by_substring [''App'', ''MyPods'', ''View.swift'']"
    by (simp add: excluded_by_substring_def excluded_dirs_def)
next
  show "find_swift_files [[''App'', ''MyPods'', ''View.swift'']] = [[''App'', ''MyPods'', ''View.swift'']]"
    by (simp add: find_swift_files_def rglob_def search_extensions_def excluded_dirs_def suffix_def)
qed

section \<open>The missing keys\<close>

lemma displayed_keys_map: "displayed_keys (map MissingKey ks) = ks"
  by (induction ks) (simp_all add: displayed_keys_def)

lemma displayed_keys_compare:
  "displayed_keys (fst (compare_and_display_missing_keys base_keys compare_keys name)) =
     (if base_keys - compare_keys \<noteq> {} then sorted_list_of_set (base_keys - compare_keys) else [])"
proof (cases "base_keys - compare_keys = {}")
  case True
  then show ?thesis by (simp add: compare_and_display_missing_keys_def displayed_keys_def)
next
  case False
  have "displayed_keys (MissingHeader name n # map MissingKey ks) = ks" for n ks
    using displayed_keys_map [of ks] by (simp add: displayed_keys_def)
  with False show ?thesis by (simp add: compare_and_display_missing_keys_def Let_def)
qed

lemma collect_keys_step:
  "collect_keys (l # ls) keys = collect_keys ls (keys \<union> collect_keys [l] {})"
  by (simp add: Let_def split: option.splits)

lemma collect_keys_union:
  "collect_keys ls keys = keys \<union> (\<Union>l \<in> set ls. collect_keys [l] {})"
proof (induction ls arbitrary: keys)
  case Nil
  show ?case by simp
next
  case (Cons l ls)
  have "collect_keys (l # ls) keys = collect_keys ls (keys \<union> collect_keys [l] {})"
    by (rule collect_keys_step)
  also have "\<dots> = (keys \<union> collect_keys [l] {}) \<union> (\<Union>l \<in> set ls. collect_keys [l] {})"
    by (rule Cons)
  finally show ?case by auto
qed

lemma parse_by_line_set:
  "set (splitlines c1) = set (splitlines c2) \<Longrightarrow>
     parse_strings_file_content c1 = parse_strings_file_content c2"
proof -
  assume same: "set (splitlines c1) = set (splitlines c2)"
  have "collect_keys (splitlines c1) {} = {} \<union> (\<Union>l \<in> set (splitlines c1). collect_keys [l] {})"
    by (rule collect_keys_union)
  also have "\<dots> = {} \<union> (\<Union>l \<in> set (splitlines c2). collect_keys [l] {})"
    by (simp only: same)
  also have "\<dots> = collect_keys (splitlines c2) {}"
    by (rule collect_keys_union [symmetric])
  finally show ?thesis by (simp only: parse_strings_file_content_def)
qed

text \<open>
  Claim C7. For key sets as the tool builds them (finite), the keys that
  \<^verbatim>\<open>compare_and_display_missing_keys\<close> shows are exactly the set difference of the base keys
  and the compared keys, each once, in ascending order of the strings (lexicographic by
  character code), and the number returned is the size of that difference. Only keys
  enter, no values. Comparing a key set with itself shows no key and returns 0. The
  result does not depend on the order of the lines of the files the key sets are parsed
  from.
\<close>

theorem missing_keys_set_difference:
  assumes "finite base_keys"
  shows "set (displayed_keys (fst (compare_and_display_missing_keys base_keys compare_keys name))) =
           base_keys - compare_keys \<and>
         sorted (displayed_keys (fst (compare_and_display_missing_keys base_keys compare_keys name))) \<and>
         distinct (displayed_keys (fst (compare_and_display_missing_keys base_keys compare_keys name))) \<and>
         snd (compare_and_display_missing_keys base_keys compare_keys name) =
           card (base_keys - compare_keys) \<and>
         compare_and_display_missing_keys base_keys base_keys name = ([NothingMissing name], 0) \<and>
         (\<forall>b1 b2 c1 c2.
            set (splitlines b1) = set (splitlines b2) \<and> set (splitlines c1) = set (splitlines c2) \<longrightarrow>
            compare_and_display_missing_keys
              (parse_strings_file_content b1) (parse_strings_file_content c1) name =
            compare_and_display_missing_keys
              (parse_strings_file_content b2) (parse_strings_file_content c2) name)"
proof -
  from assms have fin: "finite (base_keys - compare_keys)" by simp
  let ?shown = "displayed_keys (fst (compare_and_display_missing_keys base_keys compare_keys name))"
  have shown: "?shown = sorted_list_of_set (base_keys - compare_keys)"
  proof (cases "base_keys - compare_keys = {}")
    case True
    have "sorted_list_of_set ({} :: string set) = []" by simp
    with True show ?thesis unfolding displayed_keys_compare by (simp only: if_False simp_thms)
  next
    case False
    then show ?thesis unfolding displayed_keys_compare by (simp only: if_True simp_thms)
  qed
  have s1: "set ?shown = base_keys - compare_keys" unfolding shown using fin by simp
  have s2: "sorted ?shown" unfolding shown by simp
  have s3: "distinct ?shown" unfolding shown by simp
  have s4: "snd (compare_and_display_missing_keys base_keys compare_keys name) =
           card (base_keys - compare_keys)"
    by (simp add: compare_and_display_missing_keys_def Let_def)
  have s5: "compare_and_display_missing_keys base_keys base_keys name = ([NothingMissing name], 0)"
    by (simp add: compare_and_display_missing_keys_def)
  have s6: "\<forall>b1 b2 c1 c2.
            set (splitlines b1) = set (splitlines b2) \<and> set (splitlines c1) = set (splitlines c2) \<longrightarrow>
            compare_and_display_missing_keys
              (parse_strings_file_content b1) (parse_strings_file_content c1) name =
            compare_and_display_missing_keys
              (parse_strings_file_content b2) (parse_strings_file_content c2) name"
    using parse_by_line_set by metis
  from s1 s2 s3 s4 s5 s6 show ?thesis by (intro conjI)
qed


theorem missing_keys_set_difference_witness:
  "displayed_keys (fst (compare_and_display_missing_keys
      {''common.ok'', ''market.back'', ''Market.title'', ''common''} {''common.ok''} ''zh-Hans.lproj'')) =
     [''Market.title'', ''common'', ''market.back'']"
proof -
  let ?base = "{''common.ok'', ''market.back'', ''Market.title'', ''common''}"
  let ?shown = "displayed_keys (fst (compare_and_display_missing_keys ?base {''common.ok''} ''zh-Hans.lproj''))"
  let ?expected = "[''Market.title'', ''common'', ''market.back'']"
  have f: "finite ?base" by simp
  have d: "?base - {''common.ok''} = set ?expected" by auto
  from missing_keys_set_difference [OF f, of "{''common.ok''}" "''zh-Hans.lproj''"]
  have "set ?shown = ?base - {''common.ok''}" and s: "sorted ?shown" and t: "distinct ?shown"
    by blast+
  with d have e: "set ?shown = set ?expected" by (simp only:)
  have s': "sorted ?expected" by simp
  have t': "distinct ?expected" by simp
  from s t s' t' e show ?thesis by (rule sorted_distinct_set_unique)
qed

section \<open>The exit status of the key-diff tool\<close>

text \<open>
  Claim C4, on the scenario of the specification. With base keys \<^verbatim>\<open>a\<close>, \<^verbatim>\<open>b\<close>, \<^verbatim>\<open>c\<close> and
  compared keys \<^verbatim>\<open>a\<close>, \<^verbatim>\<open>c\<close> the tool reports \<^verbatim>\<open>b\<close> as missing and \<^verbatim>\<open>main()\<close> returns 1,
  but the script calls \<^verbatim>\<open>main()\<close> as a bare statement and the process ends with status 0.
\<close>

theorem key_diff_exit_status_dropped:
  "parse_strings_file_content
     (serialize ''a'' ''A'' @ [LF] @ serialize ''b'' ''B'' @ [LF] @ serialize ''c'' ''C'' @ [LF]) =
     {''a'', ''b'', ''c''} \<and>
   parse_strings_file_content (serialize ''a'' ''A'' @ [LF] @ serialize ''c'' ''C'' @ [LF]) =
     {''a'', ''c''} \<and>
   fst (compare_and_display_missing_keys {''a'', ''b'', ''c''} {''a'', ''c''} ''zh-Hans.lproj'') =
     [MissingHeader ''zh-Hans.lproj'' 1, MissingKey ''b''] \<and>
   main [''en.lproj/Localizable.strings'' \<mapsto>
           serialize ''a'' ''A'' @ [LF] @ serialize ''b'' ''B'' @ [LF] @ serialize ''c'' ''C'' @ [LF],
         ''zh-Hans.lproj/Localizable.strings'' \<mapsto>
           serialize ''a'' ''A'' @ [LF] @ serialize ''c'' ''C'' @ [LF]]
        \<lparr>base_file = ''en.lproj/Localizable.strings'',
         compare_file1 = ''zh-Hans.lproj/Localizable.strings'', compare_file2 = None\<rparr> = 1 \<and>
   script_exit_status
        [''en.lproj/Localizable.strings'' \<mapsto>
           serialize ''a'' ''A'' @ [LF] @ serialize ''b'' ''B'' @ [LF] @ serialize ''c'' ''C'' @ [LF],
         ''zh-Hans.lproj/Localizable.strings'' \<mapsto>
           serialize ''a'' ''A'' @ [LF] @ serialize ''c'' ''C'' @ [LF]]
        \<lparr>base_file = ''en.lproj/Localizable.strings'',
         compare_file1 = ''zh-Hans.lproj/Localizable.strings'', compare_file2 = None\<rparr> = 0"
proof -
  let ?base = "serialize ''a'' ''A'' @ [LF] @ serialize ''b'' ''B'' @ [LF] @ serialize ''c'' ''C'' @ [LF]"
  let ?cmp = "serialize ''a'' ''A'' @ [LF] @ serialize ''c'' ''C'' @ [LF]"
  have p1: "parse_strings_file_content ?base = {''a'', ''b'', ''c''}" by code_simp
  have p2: "parse_strings_file_content ?cmp = {''a'', ''c''}" by code_simp
  have d: "{''a'', ''b'', ''c''} - {''a'', ''c''} = {''b''}" by auto
  have c: "compare_and_display_missing_keys {''a'', ''b'', ''c''} {''a'', ''c''} n =
             ([MissingHeader n 1, MissingKey ''b''], 1)" for n
    unfolding compare_and_display_missing_keys_def d by simp
  have m: "main [''en.lproj/Localizable.strings'' \<mapsto> ?base,
                 ''zh-Hans.lproj/Localizable.strings'' \<mapsto> ?cmp]
             \<lparr>base_file = ''en.lproj/Localizable.strings'',
              compare_file1 = ''zh-Hans.lproj/Localizable.strings'', compare_file2 = None\<rparr> = 1"
    unfolding main_def read_file_content_def by (simp add: p1 p2 c del: append.simps)
  have s: "script_exit_status fs a = 0" for fs a
    by (simp add: script_exit_status_def)
  from p1 p2 c m s show ?thesis by (intro conjI) simp_all
qed

section \<open>The scan and the entry pattern\<close>

text \<open>
  The left-to-right scan \<^const>\<open>match_entry\<close> accepts exactly the strings of the shape the
  entry pattern describes: white space, a quoted non-empty key over the key class, white
  space, the equals sign, white space, a quoted value made of the units of the value
  group, white space, a semicolon, white space; and it returns the key and the value of
  that shape.
\<close>

lemma expect_Some: "expect c s = Some r \<longleftrightarrow> s = c # r"
  by (cases s) (auto simp: expect_def)

lemma skip_ws_split:
  "skip_ws s = c # r \<Longrightarrow> \<exists>w. s = w @ c # r \<and> (\<forall>x \<in> set w. is_space x)"
proof -
  assume d: "skip_ws s = c # r"
  have "s = takeWhile is_space s @ dropWhile is_space s" by simp
  with d have "s = takeWhile is_space s @ c # r" by (simp only: skip_ws_def)
  moreover have "\<forall>x \<in> set (takeWhile is_space s). is_space x"
    using set_takeWhileD by fastforce
  ultimately show ?thesis by blast
qed

lemma skip_ws_intro:
  assumes "\<forall>x \<in> set w. is_space x" and "\<not> is_space c"
  shows "skip_ws (w @ c # r) = c # r"
  using assms by (simp add: skip_ws_def dropWhile_append2)


lemma escaped_value_Cons:
  assumes "c \<noteq> DQ" and "c \<noteq> BSL" and "escaped_value v"
  shows "escaped_value (c # v)"
  using assms by (cases v) simp_all

lemma escaped_value_pair:
  assumes "d \<noteq> LF" and "escaped_value v"
  shows "escaped_value (BSL # d # v)"
  using assms by simp

lemma scan_value_sound:
  "s = fst (scan_value s) @ snd (scan_value s) \<and> escaped_value (fst (scan_value s))"
proof (induction s rule: scan_value.induct)
  case 1
  show ?case by simp
next
  case (2 c)
  show ?case by simp
next
  case (3 c d ds)
  show ?case
  proof (cases "c = DQ")
    case True
    then show ?thesis by simp
  next
    case notq: False
    show ?thesis
    proof (cases "c = BSL")
      case bsl: True
      show ?thesis
      proof (cases "d = LF")
        case True
        with bsl show ?thesis by simp
      next
        case False
        have eq: "scan_value (c # d # ds) = (c # d # fst (scan_value ds), snd (scan_value ds))"
          using bsl False by (simp add: case_prod_beta)
        have ih: "ds = fst (scan_value ds) @ snd (scan_value ds) \<and> escaped_value (fst (scan_value ds))"
          using 3(1) [OF notq bsl False] by (cases "scan_value ds") simp
        then have e: "escaped_value (BSL # d # fst (scan_value ds))"
          using False by (intro escaped_value_pair) simp_all
        from ih have "c # d # ds = (c # d # fst (scan_value ds)) @ snd (scan_value ds)" by simp
        with e bsl show ?thesis unfolding eq by (simp only: fst_conv snd_conv)
      qed
    next
      case False
      have eq: "scan_value (c # d # ds) = (c # fst (scan_value (d # ds)), snd (scan_value (d # ds)))"
        using notq False by (simp add: case_prod_beta)
      have ih: "d # ds = fst (scan_value (d # ds)) @ snd (scan_value (d # ds)) \<and>
                escaped_value (fst (scan_value (d # ds)))"
        using 3(2) [OF notq False] by (cases "scan_value (d # ds)") simp
      then have e: "escaped_value (c # fst (scan_value (d # ds)))"
        using notq False by (intro escaped_value_Cons) simp_all
      from ih have "c # d # ds = (c # fst (scan_value (d # ds))) @ snd (scan_value (d # ds))"
        by simp
      with e show ?thesis unfolding eq by (simp only: fst_conv snd_conv)
    qed
  qed
qed


lemma take_drop_key:
  assumes "takeWhile is_key_char s = k" and "dropWhile is_key_char s = DQ # r"
  shows "s = k @ DQ # r \<and> (\<forall>c \<in> set k. is_key_char c)"
proof -
  have "s = takeWhile is_key_char s @ dropWhile is_key_char s" by simp
  with assms have "s = k @ DQ # r" by simp
  moreover have "\<forall>c \<in> set (takeWhile is_key_char s). is_key_char c"
    using set_takeWhileD by fastforce
  then have "\<forall>c \<in> set k. is_key_char c" by (simp only: assms(1))
  ultimately show ?thesis by (intro conjI)
qed


lemma match_entry_sound:
  assumes "match_entry s = Some (k, v)"
  shows "\<exists>w1 w2 w3 w4 w5.
           s = w1 @ [DQ] @ k @ [DQ] @ w2 @ ''='' @ w3 @ [DQ] @ v @ [DQ] @ w4 @ '';'' @ w5 \<and>
           (\<forall>c \<in> set (w1 @ w2 @ w3 @ w4 @ w5). is_space c) \<and>
           k \<noteq> [] \<and> (\<forall>c \<in> set k. is_key_char c) \<and> escaped_value v"
proof -
  from assms obtain s1 where a1: "skip_ws s = DQ # s1"
    and b1: "(let key = takeWhile is_key_char s1 in
       if key = [] then None
       else
         Option.bind (expect DQ (dropWhile is_key_char s1)) (\<lambda>s2.
         Option.bind (expect CHR ''='' (skip_ws s2)) (\<lambda>s3.
         Option.bind (expect DQ (skip_ws s3)) (\<lambda>s4.
           let (val, s5) = scan_value s4 in
           Option.bind (expect DQ s5) (\<lambda>s6.
           Option.bind (expect CHR '';'' (skip_ws s6)) (\<lambda>s7.
             if skip_ws s7 = [] then Some (key, val) else None)))))) = Some (k, v)"
    unfolding match_entry_def by (auto simp: Option.bind_eq_Some_conv expect_Some)
  from b1 have kne: "takeWhile is_key_char s1 \<noteq> []"
    by (auto simp: Let_def split: if_splits)
  with b1 obtain s2 s3 s4 s6 s7 where
    a2: "dropWhile is_key_char s1 = DQ # s2" and a3: "skip_ws s2 = CHR ''='' # s3"
    and a4: "skip_ws s3 = DQ # s4" and a5: "snd (scan_value s4) = DQ # s6"
    and a6: "skip_ws s6 = CHR '';'' # s7" and a7: "skip_ws s7 = []"
    and r: "takeWhile is_key_char s1 = k" "fst (scan_value s4) = v"
    by (auto simp: Let_def Option.bind_eq_Some_conv expect_Some case_prod_beta split: if_splits)
  from skip_ws_split [OF a1] obtain w1 where w1: "s = w1 @ DQ # s1" "\<forall>x \<in> set w1. is_space x"
    by blast
  from take_drop_key [OF r(1) a2] have k: "s1 = k @ DQ # s2" "\<forall>c \<in> set k. is_key_char c"
    by simp_all
  from skip_ws_split [OF a3] obtain w2 where w2: "s2 = w2 @ CHR ''='' # s3" "\<forall>x \<in> set w2. is_space x"
    by blast
  from skip_ws_split [OF a4] obtain w3 where w3: "s3 = w3 @ DQ # s4" "\<forall>x \<in> set w3. is_space x"
    by blast
  from scan_value_sound [of s4] a5 r(2) have v: "s4 = v @ DQ # s6" "escaped_value v" by simp_all
  from skip_ws_split [OF a6] obtain w4 where w4: "s6 = w4 @ CHR '';'' # s7" "\<forall>x \<in> set w4. is_space x"
    by blast
  from a7 have w5: "\<forall>x \<in> set s7. is_space x" by (simp add: skip_ws_def)
  have "s = w1 @ [DQ] @ k @ [DQ] @ w2 @ ''='' @ w3 @ [DQ] @ v @ [DQ] @ w4 @ '';'' @ s7"
    by (simp add: w1(1) k(1) w2(1) w3(1) v(1) w4(1))
  moreover have "\<forall>c \<in> set (w1 @ w2 @ w3 @ w4 @ s7). is_space c"
    using w1(2) w2(2) w3(2) w4(2) w5 by auto
  moreover have "k \<noteq> []" using kne r(1) by simp
  ultimately show ?thesis using k(2) v(2) by blast
qed


lemma match_entry_complete:
  assumes ws: "\<forall>c \<in> set (w1 @ w2 @ w3 @ w4 @ w5). is_space c"
    and key: "k \<noteq> []" "\<forall>c \<in> set k. is_key_char c"
    and val: "escaped_value v"
  shows "match_entry (w1 @ [DQ] @ k @ [DQ] @ w2 @ ''='' @ w3 @ [DQ] @ v @ [DQ] @ w4 @ '';'' @ w5) =
           Some (k, v)"
proof -
  have sp: "\<not> is_space DQ" "\<not> is_space CHR ''=''" "\<not> is_space CHR '';''"
    by (simp_all add: is_space_def)
  from ws have w: "\<forall>c \<in> set w1. is_space c" "\<forall>c \<in> set w2. is_space c"
    "\<forall>c \<in> set w3. is_space c" "\<forall>c \<in> set w4. is_space c" "\<forall>c \<in> set w5. is_space c"
    by auto
  define s6 where "s6 = w4 @ CHR '';'' # w5"
  define s4 where "s4 = v @ DQ # s6"
  define s3 where "s3 = w3 @ DQ # s4"
  define s2 where "s2 = w2 @ CHR ''='' # s3"
  define s1 where "s1 = k @ DQ # s2"
  have shape: "w1 @ [DQ] @ k @ [DQ] @ w2 @ ''='' @ w3 @ [DQ] @ v @ [DQ] @ w4 @ '';'' @ w5 = w1 @ DQ # s1"
    by (simp add: s1_def s2_def s3_def s4_def s6_def)
  have e1: "skip_ws (w1 @ DQ # s1) = DQ # s1" using w(1) sp(1) by (rule skip_ws_intro)
  have tk: "takeWhile is_key_char s1 = k"
    unfolding s1_def using key(2) not_key_char_DQ by (simp add: takeWhile_append2)
  have dk: "dropWhile is_key_char s1 = DQ # s2"
    unfolding s1_def using key(2) not_key_char_DQ by (simp add: dropWhile_append2)
  have e2: "skip_ws s2 = CHR ''='' # s3" unfolding s2_def using w(2) sp(2) by (rule skip_ws_intro)
  have e3: "skip_ws s3 = DQ # s4" unfolding s3_def using w(3) sp(1) by (rule skip_ws_intro)
  have sv: "scan_value s4 = (v, DQ # s6)" unfolding s4_def using val by (rule scan_value_exact)
  have e4: "skip_ws s6 = CHR '';'' # w5" unfolding s6_def using w(4) sp(3) by (rule skip_ws_intro)
  have e5: "skip_ws w5 = []" using w(5) by (simp add: skip_ws_def)
  show ?thesis
    unfolding shape match_entry_def
    by (simp add: e1 expect_def tk dk e2 e3 sv e4 e5 key(1))
qed

lemma match_entry_iff:
  "match_entry s = Some (k, v) \<longleftrightarrow>
     (\<exists>w1 w2 w3 w4 w5.
        s = w1 @ [DQ] @ k @ [DQ] @ w2 @ ''='' @ w3 @ [DQ] @ v @ [DQ] @ w4 @ '';'' @ w5 \<and>
        (\<forall>c \<in> set (w1 @ w2 @ w3 @ w4 @ w5). is_space c) \<and>
        k \<noteq> [] \<and> (\<forall>c \<in> set k. is_key_char c) \<and> escaped_value v)"
proof
  assume "match_entry s = Some (k, v)"
  then show "\<exists>w1 w2 w3 w4 w5.
        s = w1 @ [DQ] @ k @ [DQ] @ w2 @ ''='' @ w3 @ [DQ] @ v @ [DQ] @ w4 @ '';'' @ w5 \<and>
        (\<forall>c \<in> set (w1 @ w2 @ w3 @ w4 @ w5). is_space c) \<and>
        k \<noteq> [] \<and> (\<forall>c \<in> set k. is_key_char c) \<and> escaped_value v"
    by (rule match_entry_sound)
next
  assume "\<exists>w1 w2 w3 w4 w5.
        s = w1 @ [DQ] @ k @ [DQ] @ w2 @ ''='' @ w3 @ [DQ] @ v @ [DQ] @ w4 @ '';'' @ w5 \<and>
        (\<forall>c \<in> set (w1 @ w2 @ w3 @ w4 @ w5). is_space c) \<and>
        k \<noteq> [] \<and> (\<forall>c \<in> set k. is_key_char c) \<and> escaped_value v"
  then obtain w1 w2 w3 w4 w5 where
    "s = w1 @ [DQ] @ k @ [DQ] @ w2 @ ''='' @ w3 @ [DQ] @ v @ [DQ] @ w4 @ '';'' @ w5"
    "\<forall>c \<in> set (w1 @ w2 @ w3 @ w4 @ w5). is_space c"
    "k \<noteq> []" "\<forall>c \<in> set k. is_key_char c" "escaped_value v"
    by (elim exE conjE)
  then show "match_entry s = Some (k, v)" using match_entry_complete by blast
qed

end
